theory Spec2Isabelle
  imports Main "HOL-Library.Word" "HOL-Library.Multiset" "HOL-Library.Monad_Syntax"
begin

section \<open>The unbounded queue (v2/queue)\<close>

text \<open>
  The queue is modelled as the state its mutex protects: the parked waiters, the buffer
  and the disposed flag. One call is one critical section. A consumer that finds the
  buffer empty parks: its call does not return in this step. What it returns later is
  decided by one of the events that can reach its \<open>select\<close>: a producer's \<open>Put\<close> hands
  items over, \<open>Dispose\<close> releases it, or its timer fires.

  A parked waiter is its \<open>sema\<close> together with what its suspended \<open>Poll\<close> still needs:
  the number of items it asked for and its timeout. \<open>fired\<close> says that its \<open>select\<close> has
  taken the timer arm; \<open>ready\<close> says that the one-slot ready channel is full. In the
  waiter list only the waiter itself can have filled the slot, reclaiming its \<open>sema\<close>
  after the timer: a producer's signal is consumed inside the producer's own critical
  section, because \<open>Put\<close> waits for the response and \<open>Dispose\<close> clears the list.
\<close>

datatype error = ErrDisposed | ErrTimeout | ErrEmptyQueue

record sema =
  number :: int
  timeout :: int
  fired :: bool
  ready :: bool

record 'a Queue =
  waiters :: "sema list"
  items :: "'a list"
  disposed :: bool

text \<open>What a call hands back: slice and error, or nothing yet because the caller parked.\<close>

datatype 'a outcome = Returned "'a list" "error option" | Parked

definition waiters_get :: "sema list \<Rightarrow> sema option \<times> sema list" where
  "waiters_get w = (case w of [] \<Rightarrow> (None, []) | s # r \<Rightarrow> (Some s, r))"

definition waiters_put :: "sema list \<Rightarrow> sema \<Rightarrow> sema list" where
  "waiters_put w s = w @ [s]"

text \<open>\<open>waiters.remove\<close> keeps every pointer other than the given one. The list holds
  each \<open>sema\<close> once, so a \<open>sema\<close> is named here by its place in the list.\<close>

definition waiters_remove :: "sema list \<Rightarrow> nat \<Rightarrow> sema list" where
  "waiters_remove w i =
     (if length w = 0 then w
      else map snd (filter (\<lambda>(j, s). j \<noteq> i) (enumerate 0 w)))"

text \<open>\<open>items.get\<close>: the loop copies \<open>items[i]\<close> while \<open>i < number\<close> and \<open>i < len\<close>,
  then the buffer is resliced from \<open>index\<close>, the count of copied items.\<close>

function items_get_loop :: "int \<Rightarrow> int \<Rightarrow> 'a list \<Rightarrow> 'a list \<Rightarrow> 'a list" where
  "items_get_loop i n its returnItems =
     (if i < n then
        (if i \<ge> int (length its) then returnItems
         else items_get_loop (i + 1) n its (returnItems @ [its ! nat i]))
      else returnItems)"
  by pat_completeness auto
termination
  by (relation "measure (\<lambda>(i, n, its, r). nat (n - i))") auto

definition items_get :: "'a list \<Rightarrow> int \<Rightarrow> 'a list \<times> 'a list" where
  "items_get its n =
     (let returnItems = items_get_loop 0 n its [] in
      (returnItems, drop (length returnItems) its))"

text \<open>\<open>items.getUntil\<close>: the range loop stops at the first item the checker rejects;
  the buffer is resliced from \<open>index + 1\<close>, the count of collected items.\<close>

fun getUntil_loop :: "('a \<Rightarrow> bool) \<Rightarrow> 'a list \<Rightarrow> 'a list" where
  "getUntil_loop checker [] = []"
| "getUntil_loop checker (item # rest) =
     (if \<not> checker item then [] else item # getUntil_loop checker rest)"

definition items_getUntil :: "'a list \<Rightarrow> ('a \<Rightarrow> bool) \<Rightarrow> 'a list \<times> 'a list" where
  "items_getUntil its checker =
     (if length its = 0 then ([], its)
      else let returnItems = getUntil_loop checker its in
           (returnItems, drop (length returnItems) its))"

text \<open>\<open>New\<close>: \<open>make([]T, 0, hint)\<close> panics on a negative capacity.\<close>

definition New :: "int \<Rightarrow> 'a Queue option" where
  "New hint = (if hint < 0 then None
               else Some \<lparr>waiters = [], items = [], disposed = False\<rparr>)"

text \<open>
  The hand-off loop of \<open>Put\<close>, on the waiters in arrival order. The producer's
  non-blocking send fails on a waiter whose ready slot is full: that waiter has timed
  out and reclaimed its \<open>sema\<close>, and it is dropped. Otherwise the send succeeds and the
  producer waits for the response. A waiter still in its \<open>select\<close> takes up to its number
  of items and acknowledges. A waiter whose \<open>select\<close> has already taken the timer arm
  finds the slot full when it tries to reclaim, acknowledges, and returns \<open>ErrTimeout\<close>
  without taking anything. The loop ends when no waiter or no item is left. The third
  component collects what each waiter woken by this \<open>Put\<close> returns.
\<close>

fun notify :: "sema list \<Rightarrow> 'a list \<Rightarrow> sema list \<times> 'a list \<times> 'a outcome list" where
  "notify [] its = ([], its, [])"
| "notify (s # w) its =
     (let (woken, its') =
            (if ready s then ([], its)
             else if fired s then ([Returned [] (Some ErrTimeout)], its)
             else (case items_get its (number s) of
                     (r, rest) \<Rightarrow> ([Returned r None], rest)))
      in if length its' = 0 then (w, its', woken)
         else (case notify w its' of (w', its'', rest) \<Rightarrow> (w', its'', woken @ rest)))"

definition Put :: "'a Queue \<Rightarrow> 'a list \<Rightarrow> error option \<times> 'a Queue \<times> 'a outcome list" where
  "Put q xs =
     (if length xs = 0 then (None, q, [])
      else if disposed q then (Some ErrDisposed, q, [])
      else (case notify (waiters q) (items q @ xs) of
              (w, its, woken) \<Rightarrow> (None, q\<lparr>waiters := w, items := its\<rparr>, woken)))"

text \<open>\<open>Poll\<close>, up to the point where the caller returns or parks in its \<open>select\<close>.\<close>

definition Poll :: "'a Queue \<Rightarrow> int \<Rightarrow> int \<Rightarrow> 'a outcome \<times> 'a Queue" where
  "Poll q n t =
     (if n < 1 then (Returned [] None, q)
      else if disposed q then (Returned [] (Some ErrDisposed), q)
      else if length (items q) = 0 then
        (Parked,
         q\<lparr>waiters := waiters_put (waiters q)
                         \<lparr>number = n, timeout = t, fired = False, ready = False\<rparr>\<rparr>)
      else (case items_get (items q) n of
              (r, rest) \<Rightarrow> (Returned r None, q\<lparr>items := rest\<rparr>)))"

text \<open>
  The timer arm of a parked \<open>Poll\<close>, in its three steps. Each is \<open>None\<close> when the waiter
  at that place cannot take it.

  \<open>expire\<close>: the \<open>select\<close> takes \<open>case <-timeoutC\<close>. The channel exists only for a positive
  timeout; a waiter with none stays in its \<open>select\<close> until a producer or \<open>Dispose\<close>
  signals it.

  \<open>reclaim\<close>: the waiter's own non-blocking send fills its free ready slot.

  \<open>leave\<close>: the waiter that reclaimed takes the lock, removes itself from the waiter
  list and returns \<open>ErrTimeout\<close>.
\<close>

definition expire :: "'a Queue \<Rightarrow> nat \<Rightarrow> 'a Queue option" where
  "expire q i =
     (if i < length (waiters q) \<and> 0 < timeout (waiters q ! i) \<and>
         \<not> fired (waiters q ! i)
      then Some (q\<lparr>waiters := (waiters q)[i := (waiters q ! i)\<lparr>fired := True\<rparr>]\<rparr>)
      else None)"

definition reclaim :: "'a Queue \<Rightarrow> nat \<Rightarrow> 'a Queue option" where
  "reclaim q i =
     (if i < length (waiters q) \<and> fired (waiters q ! i) \<and> \<not> ready (waiters q ! i)
      then Some (q\<lparr>waiters := (waiters q)[i := (waiters q ! i)\<lparr>ready := True\<rparr>]\<rparr>)
      else None)"

definition leave :: "'a Queue \<Rightarrow> nat \<Rightarrow> ('a outcome \<times> 'a Queue) option" where
  "leave q i =
     (if i < length (waiters q) \<and> ready (waiters q ! i)
      then Some (Returned [] (Some ErrTimeout),
                 q\<lparr>waiters := waiters_remove (waiters q) i\<rparr>)
      else None)"

definition Get :: "'a Queue \<Rightarrow> int \<Rightarrow> 'a outcome \<times> 'a Queue" where
  "Get q n = Poll q n 0"

text \<open>\<open>TakeUntil\<close>: a nil checker is \<open>None\<close>.\<close>

definition TakeUntil ::
  "'a Queue \<Rightarrow> ('a \<Rightarrow> bool) option \<Rightarrow> ('a list \<times> error option) \<times> 'a Queue" where
  "TakeUntil q checker =
     (case checker of
        None \<Rightarrow> (([], None), q)
      | Some c \<Rightarrow>
          if disposed q then (([], Some ErrDisposed), q)
          else (case items_getUntil (items q) c of
                  (result, rest) \<Rightarrow> ((result, None), q\<lparr>items := rest\<rparr>)))"

text \<open>
  \<open>Dispose\<close>: the flag is set, every parked waiter is signalled, the buffer is handed to
  the caller, and buffer and waiter list are cleared. The third component is what the
  released waiters return: a waiter still in its \<open>select\<close> wakes, sees the flag and
  returns \<open>ErrDisposed\<close>; one that has taken the timer arm returns \<open>ErrTimeout\<close>.
\<close>

definition released :: "sema \<Rightarrow> 'a outcome" where
  "released s =
     (if ready s \<or> fired s then Returned [] (Some ErrTimeout)
      else Returned [] (Some ErrDisposed))"

definition Dispose :: "'a Queue \<Rightarrow> 'a list \<times> 'a Queue \<times> 'a outcome list" where
  "Dispose q =
     (items q, q\<lparr>disposed := True, items := [], waiters := []\<rparr>, map released (waiters q))"

text \<open>
  A history is a list of events: the calls, and the steps of the timer arm of a parked
  \<open>Poll\<close>, named by the waiter's place in the list at that moment. Running an event
  gives the new state, the items handed out during it (to the caller, to woken waiters,
  or to the disposer), and the items a \<open>Put\<close> that returned no error took in.
\<close>

datatype 'a event =
  CPut "'a list" | CPoll int int | CTakeUntil "'a \<Rightarrow> bool" | CDispose
  | CExpire nat | CReclaim nat | CLeave nat

fun handed :: "'a outcome \<Rightarrow> 'a list" where
  "handed (Returned r e) = r"
| "handed Parked = []"

fun exec :: "'a event \<Rightarrow> 'a Queue \<Rightarrow> 'a Queue \<times> 'a list \<times> 'a list" where
  "exec (CPut xs) q =
     (case Put q xs of
        (e, q', woken) \<Rightarrow> (q', concat (map handed woken), if e = None then xs else []))"
| "exec (CPoll n t) q = (case Poll q n t of (r, q') \<Rightarrow> (q', handed r, []))"
| "exec (CTakeUntil c) q = (case TakeUntil q (Some c) of ((r, e), q') \<Rightarrow> (q', r, []))"
| "exec CDispose q =
     (case Dispose q of (its, q', woken) \<Rightarrow> (q', its @ concat (map handed woken), []))"
| "exec (CExpire i) q = (case expire q i of None \<Rightarrow> (q, [], []) | Some q' \<Rightarrow> (q', [], []))"
| "exec (CReclaim i) q = (case reclaim q i of None \<Rightarrow> (q, [], []) | Some q' \<Rightarrow> (q', [], []))"
| "exec (CLeave i) q =
     (case leave q i of None \<Rightarrow> (q, [], []) | Some (r, q') \<Rightarrow> (q', handed r, []))"

fun run :: "'a event list \<Rightarrow> 'a Queue \<Rightarrow> 'a Queue \<times> 'a list \<times> 'a list" where
  "run [] q = (q, [], [])"
| "run (c # cs) q =
     (case exec c q of (q', taken, accepted) \<Rightarrow>
        (case run cs q' of
           (q'', taken', accepted') \<Rightarrow> (q'', taken @ taken', accepted @ accepted')))"

section \<open>The priority queue (v2/queue)\<close>

record 'v PriorityItem =
  Value :: 'v
  Priority :: int

definition PriorityItem_Compare :: "'v PriorityItem \<Rightarrow> 'v PriorityItem \<Rightarrow> int" where
  "PriorityItem_Compare p other =
     (if Priority p < Priority other then - 1
      else if Priority p > Priority other then 1
      else 0)"

text \<open>\<open>priorityItems.swap\<close>, \<open>pop\<close> and \<open>push\<close>. Indices are slice indices; Go's
  \<open>(index - 1) / 2\<close> truncates to 0 at \<open>index = 0\<close>, as subtraction and division on
  \<open>nat\<close> do. \<open>pop\<close> on an empty slice indexes out of range and is \<open>None\<close>. The loop of
  \<open>push\<close> stays at the root for ever if an item compares greater than itself, so it is
  a partial function.\<close>

definition items_swap :: "'a list \<Rightarrow> nat \<Rightarrow> nat \<Rightarrow> 'a list" where
  "items_swap xs i j = xs[i := xs ! j, j := xs ! i]"

function pop_loop :: "('a \<Rightarrow> 'a \<Rightarrow> int) \<Rightarrow> 'a list \<Rightarrow> nat \<Rightarrow> 'a list" where
  "pop_loop cmp xs index =
     (let childL = 2 * index + 1; childR = 2 * index + 2 in
      if length xs > childL then
        (let child = (if length xs > childR \<and> cmp (xs ! childR) (xs ! childL) < 0
                      then childR else childL) in
         if cmp (xs ! child) (xs ! index) < 0
         then pop_loop cmp (items_swap xs index child) child
         else xs)
      else xs)"
  by pat_completeness auto
termination
  by (relation "measure (\<lambda>(cmp, xs, index). length xs - index)")
     (auto simp: items_swap_def Let_def split: if_splits)

declare pop_loop.simps [simp del]

definition pop :: "('a \<Rightarrow> 'a \<Rightarrow> int) \<Rightarrow> 'a list \<Rightarrow> ('a \<times> 'a list) option" where
  "pop cmp xs =
     (let size = length xs in
      if size = 0 then None
      else let swapped = items_swap xs (size - 1) 0;
               item = swapped ! (size - 1)
           in Some (item, pop_loop cmp (take (size - 1) swapped) 0))"

partial_function (option) push_loop ::
  "('a \<Rightarrow> 'a \<Rightarrow> int) \<Rightarrow> 'a \<Rightarrow> 'a list \<Rightarrow> nat \<Rightarrow> 'a list option" where
  "push_loop cmp item xs index =
     (if cmp (xs ! ((index - 1) div 2)) item > 0
      then push_loop cmp item (items_swap xs index ((index - 1) div 2)) ((index - 1) div 2)
      else Some xs)"

declare push_loop.simps [code]

definition push :: "('a \<Rightarrow> 'a \<Rightarrow> int) \<Rightarrow> 'a list \<Rightarrow> 'a \<Rightarrow> 'a list option" where
  "push cmp xs item = push_loop cmp item (xs @ [item]) (length (xs @ [item]) - 1)"

text \<open>\<open>priorityItems.get\<close>: pops while \<open>i < number\<close> and the heap is not empty.\<close>

function priorityItems_get_loop ::
  "('a \<Rightarrow> 'a \<Rightarrow> int) \<Rightarrow> int \<Rightarrow> int \<Rightarrow> 'a list \<Rightarrow> 'a list \<Rightarrow> ('a list \<times> 'a list) option" where
  "priorityItems_get_loop cmp i n xs returnItems =
     (if i < n then
        (if length xs = 0 then Some (returnItems, xs)
         else (case pop cmp xs of
                 None \<Rightarrow> None
               | Some (item, xs') \<Rightarrow>
                   priorityItems_get_loop cmp (i + 1) n xs' (returnItems @ [item])))
      else Some (returnItems, xs))"
  by pat_completeness auto
termination
  by (relation "measure (\<lambda>(cmp, i, n, xs, r). nat (n - i))") auto

declare priorityItems_get_loop.simps [simp del]

definition priorityItems_get ::
  "('a \<Rightarrow> 'a \<Rightarrow> int) \<Rightarrow> 'a list \<Rightarrow> int \<Rightarrow> ('a list \<times> 'a list) option" where
  "priorityItems_get cmp xs n = priorityItems_get_loop cmp 0 n xs []"

text \<open>
  The priority queue, as the state behind its lock. A call that does not return, because
  \<open>push\<close> never leaves its loop or because a slice index is out of range, is \<open>None\<close>.
\<close>

record 'a PriorityQueue =
  pq_waiters :: "sema list"
  pq_items :: "'a list"
  pq_disposed :: bool
  allowDuplicates :: bool

definition NewPriorityQueue :: "int \<Rightarrow> bool \<Rightarrow> 'a PriorityQueue option" where
  "NewPriorityQueue hint dup =
     (if hint < 0 then None
      else Some \<lparr>pq_waiters = [], pq_items = [], pq_disposed = False, allowDuplicates = dup\<rparr>)"

fun push_all :: "('a \<Rightarrow> 'a \<Rightarrow> int) \<Rightarrow> 'a list \<Rightarrow> 'a list \<Rightarrow> 'a list option" where
  "push_all cmp xs [] = Some xs"
| "push_all cmp xs (item # rest) =
     (case push cmp xs item of None \<Rightarrow> None | Some ys \<Rightarrow> push_all cmp ys rest)"

text \<open>The hand-off loop of the priority queue's \<open>Put\<close>: each waiter is woken in turn and
  pops up to its number of items, until no waiter or no item is left.\<close>

fun pq_notify ::
  "('a \<Rightarrow> 'a \<Rightarrow> int) \<Rightarrow> sema list \<Rightarrow> 'a list \<Rightarrow> (sema list \<times> 'a list \<times> 'a list list) option" where
  "pq_notify cmp [] xs = Some ([], xs, [])"
| "pq_notify cmp (s # w) xs =
     (case priorityItems_get cmp xs (number s) of
        None \<Rightarrow> None
      | Some (r, rest) \<Rightarrow>
          if length rest = 0 then Some (w, rest, [r])
          else (case pq_notify cmp w rest of
                  None \<Rightarrow> None
                | Some (w', rest', gots) \<Rightarrow> Some (w', rest', r # gots)))"

definition pq_Put ::
  "('a \<Rightarrow> 'a \<Rightarrow> int) \<Rightarrow> 'a PriorityQueue \<Rightarrow> 'a list \<Rightarrow>
   (error option \<times> 'a PriorityQueue \<times> 'a list list) option" where
  "pq_Put cmp pq xs =
     (if length xs = 0 then Some (None, pq, [])
      else if pq_disposed pq then Some (Some ErrDisposed, pq, [])
      else (case push_all cmp (pq_items pq) xs of
              None \<Rightarrow> None
            | Some ys \<Rightarrow>
                (case pq_notify cmp (pq_waiters pq) ys of
                   None \<Rightarrow> None
                 | Some (w, rest, gots) \<Rightarrow>
                     Some (None, pq\<lparr>pq_waiters := w, pq_items := rest\<rparr>, gots))))"

definition pq_Get ::
  "('a \<Rightarrow> 'a \<Rightarrow> int) \<Rightarrow> 'a PriorityQueue \<Rightarrow> int \<Rightarrow> ('a outcome \<times> 'a PriorityQueue) option" where
  "pq_Get cmp pq n =
     (if n < 1 then Some (Returned [] None, pq)
      else if pq_disposed pq then Some (Returned [] (Some ErrDisposed), pq)
      else if length (pq_items pq) = 0 then
        Some (Parked,
              pq\<lparr>pq_waiters := waiters_put (pq_waiters pq)
                                \<lparr>number = n, timeout = 0, fired = False, ready = False\<rparr>\<rparr>)
      else (case priorityItems_get cmp (pq_items pq) n of
              None \<Rightarrow> None
            | Some (r, rest) \<Rightarrow> Some (Returned r None, pq\<lparr>pq_items := rest\<rparr>)))"

text \<open>A sequence of \<open>Put\<close> calls, and a sequence of \<open>Get(1)\<close> calls with their results.\<close>

fun put_all ::
  "('a \<Rightarrow> 'a \<Rightarrow> int) \<Rightarrow> 'a PriorityQueue \<Rightarrow> 'a list list \<Rightarrow> 'a PriorityQueue option" where
  "put_all cmp pq [] = Some pq"
| "put_all cmp pq (xs # xss) =
     (case pq_Put cmp pq xs of None \<Rightarrow> None | Some (e, pq', gots) \<Rightarrow> put_all cmp pq' xss)"

fun drain ::
  "('a \<Rightarrow> 'a \<Rightarrow> int) \<Rightarrow> nat \<Rightarrow> 'a PriorityQueue \<Rightarrow> ('a outcome list \<times> 'a PriorityQueue) option" where
  "drain cmp 0 pq = Some ([], pq)"
| "drain cmp (Suc k) pq =
     (case pq_Get cmp pq 1 of
        None \<Rightarrow> None
      | Some (out, pq') \<Rightarrow>
          (case drain cmp k pq' of
             None \<Rightarrow> None
           | Some (outs, pq'') \<Rightarrow> Some (out # outs, pq'')))"

text \<open>What the comparison of the items has to be: three-way, antisymmetric and
  transitive, as the ordered containers require of their keys.\<close>

definition ordered_key :: "('a \<Rightarrow> 'a \<Rightarrow> int) \<Rightarrow> bool" where
  "ordered_key cmp \<longleftrightarrow>
     (\<forall>x. cmp x x = 0) \<and>
     (\<forall>x y. (cmp x y < 0) = (0 < cmp y x)) \<and>
     (\<forall>x y z. cmp x y \<le> 0 \<longrightarrow> cmp y z \<le> 0 \<longrightarrow> cmp x z \<le> 0)"

text \<open>The heap order of the slice: no item compares greater than a child of it.\<close>

definition heap_ok :: "('a \<Rightarrow> 'a \<Rightarrow> int) \<Rightarrow> 'a list \<Rightarrow> bool" where
  "heap_ok cmp xs \<longleftrightarrow> list_all (\<lambda>i. cmp (xs ! ((i - 1) div 2)) (xs ! i) \<le> 0) [1..<length xs]"

text \<open>The sift-up loop of \<open>push\<close>: every parent/child pair is in order except the pair
  above \<open>index\<close>, and the children of \<open>index\<close> are in order with its parent.\<close>

definition up_inv :: "('a \<Rightarrow> 'a \<Rightarrow> int) \<Rightarrow> 'a list \<Rightarrow> nat \<Rightarrow> bool" where
  "up_inv cmp xs k \<longleftrightarrow>
     (\<forall>i. 0 < i \<and> i < length xs \<and> i \<noteq> k \<longrightarrow> cmp (xs ! ((i - 1) div 2)) (xs ! i) \<le> 0) \<and>
     (\<forall>i. 0 < i \<and> i < length xs \<and> (i - 1) div 2 = k \<and> 0 < k \<longrightarrow>
          cmp (xs ! ((k - 1) div 2)) (xs ! i) \<le> 0)"

text \<open>The sift-down loop of \<open>pop\<close>: every parent/child pair is in order except the pairs
  below \<open>index\<close>, and the children of \<open>index\<close> are in order with its parent.\<close>

definition down_inv :: "('a \<Rightarrow> 'a \<Rightarrow> int) \<Rightarrow> 'a list \<Rightarrow> nat \<Rightarrow> bool" where
  "down_inv cmp xs k \<longleftrightarrow>
     (\<forall>i. 0 < i \<and> i < length xs \<and> (i - 1) div 2 \<noteq> k \<longrightarrow>
          cmp (xs ! ((i - 1) div 2)) (xs ! i) \<le> 0) \<and>
     (\<forall>i. 0 < i \<and> i < length xs \<and> (i - 1) div 2 = k \<and> 0 < k \<longrightarrow>
          cmp (xs ! ((k - 1) div 2)) (xs ! i) \<le> 0)"

text \<open>A queue in the state the claim is about: live, nobody parked, buffer a heap.\<close>

definition filling :: "('a \<Rightarrow> 'a \<Rightarrow> int) \<Rightarrow> 'a PriorityQueue \<Rightarrow> bool" where
  "filling cmp pq \<longleftrightarrow> \<not> pq_disposed pq \<and> pq_waiters pq = [] \<and> heap_ok cmp (pq_items pq)"

section \<open>The indexed skip list (slice/skip)\<close>

text \<open>
  Nodes are objects shared by reference: a node is the target of one forward pointer per
  level it occupies, and the code rewrites nodes in place. The model keeps them in a
  store, a map from addresses to nodes with an allocation counter, and a pointer is an
  address or nil (\<open>None\<close>). The store also holds the one global of the package, the random
  generator, as the number of draws made so far from a stream \<open>rnd\<close> of outcomes of
  \<open>generator.Float64() >= p\<close>.

  Every operation returns an \<open>option\<close>: \<open>None\<close> stands for a run that does not return
  a result, because it dereferences nil, indexes a slice out of range, or never leaves a
  loop. \<open>uint64\<close> values are 64-bit words; levels are \<open>uint8\<close> values kept as naturals,
  with the one wrap-around that can occur written out in \<open>generateLevel\<close>.
\<close>

type_synonym u64 = "64 word"

record 'a skip_node =
  forward :: "nat option list"
  widths :: "u64 list"
  entry :: 'a
  hasEntry :: bool

record 'a store =
  mem :: "nat \<Rightarrow> 'a skip_node"
  nxt :: nat
  draws :: nat

record SkipList =
  maxLevel :: nat
  level :: nat
  head :: nat
  num :: u64
  cache :: "nat option list"
  posCache :: "u64 list"

text \<open>Checked slice reads and writes.\<close>

definition nth_opt :: "'b list \<Rightarrow> nat \<Rightarrow> 'b option" where
  "nth_opt xs i = (if i < length xs then Some (xs ! i) else None)"

definition upd_opt :: "'b list \<Rightarrow> nat \<Rightarrow> 'b \<Rightarrow> 'b list option" where
  "upd_opt xs i v = (if i < length xs then Some (xs[i := v]) else None)"

definition get_forward :: "'a store \<Rightarrow> nat \<Rightarrow> nat \<Rightarrow> nat option option" where
  "get_forward st a i = nth_opt (forward (mem st a)) i"

definition get_width :: "'a store \<Rightarrow> nat \<Rightarrow> nat \<Rightarrow> u64 option" where
  "get_width st a i = nth_opt (widths (mem st a)) i"

definition set_forward :: "'a store \<Rightarrow> nat \<Rightarrow> nat \<Rightarrow> nat option \<Rightarrow> 'a store option" where
  "set_forward st a i v =
     do { f \<leftarrow> upd_opt (forward (mem st a)) i v;
          Some (st\<lparr>mem := (mem st)(a := (mem st a)\<lparr>forward := f\<rparr>)\<rparr>) }"

definition set_width :: "'a store \<Rightarrow> nat \<Rightarrow> nat \<Rightarrow> u64 \<Rightarrow> 'a store option" where
  "set_width st a i v =
     do { w \<leftarrow> upd_opt (widths (mem st a)) i v;
          Some (st\<lparr>mem := (mem st)(a := (mem st a)\<lparr>widths := w\<rparr>)\<rparr>) }"

definition set_entry :: "'a store \<Rightarrow> nat \<Rightarrow> 'a \<Rightarrow> 'a store" where
  "set_entry st a e = st\<lparr>mem := (mem st)(a := (mem st a)\<lparr>entry := e\<rparr>)\<rparr>"

text \<open>\<open>cache[i]\<close>, dereferenced.\<close>

definition cache_at :: "SkipList \<Rightarrow> nat \<Rightarrow> nat option" where
  "cache_at sl i = do { c \<leftarrow> nth_opt (cache sl) i; c }"

definition newNode :: "'a \<Rightarrow> bool \<Rightarrow> nat \<Rightarrow> 'a store \<Rightarrow> nat \<times> 'a store" where
  "newNode e h maxLevels st =
     (nxt st,
      st\<lparr>mem := (mem st)(nxt st := \<lparr>forward = replicate maxLevels None,
                                     widths = replicate maxLevels 0,
                                     entry = e, hasEntry = h\<rparr>),
         nxt := nxt st + 1\<rparr>)"

text \<open>\<open>generateLevel\<close>: \<open>maxLevel - 1\<close> is computed in \<open>uint8\<close>.\<close>

function generateLevel_loop :: "(nat \<Rightarrow> bool) \<Rightarrow> nat \<Rightarrow> nat \<Rightarrow> nat \<Rightarrow> nat \<times> nat" where
  "generateLevel_loop rnd maxLvl lvl g =
     (if lvl < (maxLvl + 255) mod 256 then
        (if rnd g then (lvl, g + 1)
         else generateLevel_loop rnd maxLvl (lvl + 1) (g + 1))
      else (lvl, g))"
  by pat_completeness auto
termination
  by (relation "measure (\<lambda>(rnd, maxLvl, lvl, g). (maxLvl + 255) mod 256 - lvl)") auto

declare generateLevel_loop.simps [simp del]

definition generateLevel :: "(nat \<Rightarrow> bool) \<Rightarrow> nat \<Rightarrow> nat \<Rightarrow> nat \<times> nat" where
  "generateLevel rnd maxLvl g = generateLevel_loop rnd maxLvl 1 g"

text \<open>A \<open>for\<close> loop over level indices, in the option monad.\<close>

fun for_levels :: "(nat \<Rightarrow> 's \<Rightarrow> 's option) \<Rightarrow> nat list \<Rightarrow> 's \<Rightarrow> 's option" where
  "for_levels body [] s = Some s"
| "for_levels body (i # is) s = do { s' \<leftarrow> body i s; for_levels body is s' }"

text \<open>The hint of \<open>New\<close>, by its dynamic type.\<close>

datatype hint = Uint8 | Uint16 | Uint32 | Uint64 | Uint | OtherType

definition init :: "'a \<Rightarrow> hint \<Rightarrow> 'a store \<Rightarrow> 'a store \<times> SkipList" where
  "init zero ifc st =
     (let ml = (case ifc of Uint8 \<Rightarrow> 8 | Uint16 \<Rightarrow> 16 | Uint32 \<Rightarrow> 32
                          | Uint64 \<Rightarrow> 64 | Uint \<Rightarrow> 64 | OtherType \<Rightarrow> 0);
          (h, st') = newNode zero False ml st
      in (st', \<lparr>maxLevel = ml, level = 0, head = h, num = 0,
                cache = replicate ml None, posCache = replicate ml 0\<rparr>))"

definition New_skip :: "'a \<Rightarrow> hint \<Rightarrow> 'a store \<Rightarrow> 'a store \<times> SkipList" where
  "New_skip zero ifc st = init zero ifc st"

definition Len :: "SkipList \<Rightarrow> u64" where
  "Len sl = num sl"

text \<open>
  \<open>search\<close>. The inner loop walks one level while the next node is not nil, is not
  \<open>alreadyChecked\<close>, has an entry and compares less than the key. The outer loop runs
  \<open>offset\<close> from \<open>sl.level\<close> down to 0; \<open>update\<close> is either nil or \<open>sl.cache\<close> with
  \<open>sl.posCache\<close>, which the flag \<open>upd\<close> tells apart.
\<close>

partial_function (option) search_walk ::
  "'a store \<Rightarrow> ('a \<Rightarrow> 'a \<Rightarrow> int) \<Rightarrow> 'a \<Rightarrow> nat \<Rightarrow> nat option \<Rightarrow> nat \<Rightarrow> u64 \<Rightarrow> (nat \<times> u64) option"
  where
  "search_walk st cmp key offset alreadyChecked n pos =
     do { f \<leftarrow> get_forward st n offset;
          case f of
            None \<Rightarrow> Some (n, pos)
          | Some m \<Rightarrow>
              if f \<noteq> alreadyChecked \<and> hasEntry (mem st m) \<and> cmp (entry (mem st m)) key < 0
              then do { w \<leftarrow> get_width st n offset;
                        search_walk st cmp key offset alreadyChecked m (pos + w) }
              else Some (n, pos) }"

declare search_walk.simps [code]

definition remember :: "bool \<Rightarrow> nat \<Rightarrow> nat \<Rightarrow> u64 \<Rightarrow> SkipList \<Rightarrow> SkipList option" where
  "remember upd offset n pos sl =
     (if upd then
        do { c \<leftarrow> upd_opt (cache sl) offset (Some n);
             p \<leftarrow> upd_opt (posCache sl) offset pos;
             Some (sl\<lparr>cache := c, posCache := p\<rparr>) }
      else Some sl)"

fun search_levels ::
  "'a store \<Rightarrow> ('a \<Rightarrow> 'a \<Rightarrow> int) \<Rightarrow> 'a \<Rightarrow> bool \<Rightarrow> nat \<Rightarrow> nat option \<Rightarrow> nat \<Rightarrow> u64 \<Rightarrow> SkipList \<Rightarrow>
   (nat \<times> u64 \<times> SkipList) option" where
  "search_levels st cmp key upd 0 alreadyChecked n pos sl = Some (n, pos, sl)"
| "search_levels st cmp key upd (Suc offset) alreadyChecked n pos sl =
     do { (n', pos') \<leftarrow> search_walk st cmp key offset alreadyChecked n pos;
          sl' \<leftarrow> remember upd offset n' pos' sl;
          search_levels st cmp key upd offset (Some n') n' pos' sl' }"

definition search ::
  "'a store \<Rightarrow> ('a \<Rightarrow> 'a \<Rightarrow> int) \<Rightarrow> SkipList \<Rightarrow> 'a \<Rightarrow> bool \<Rightarrow> (nat option \<times> u64 \<times> SkipList) option"
  where
  "search st cmp sl key upd =
     (if Len sl = 0 then Some (None, 1, sl)
      else do { (n, pos, sl') \<leftarrow> search_levels st cmp key upd (Suc (level sl)) None (head sl) 0 sl;
                f \<leftarrow> get_forward st n 0;
                Some (f, pos + 1, sl') })"

text \<open>\<open>searchByPosition\<close>: the same walk, on widths.\<close>

partial_function (option) position_walk ::
  "'a store \<Rightarrow> u64 \<Rightarrow> nat \<Rightarrow> nat \<Rightarrow> u64 \<Rightarrow> (nat \<times> u64) option" where
  "position_walk st position offset n pos =
     do { f \<leftarrow> get_forward st n offset;
          case f of
            None \<Rightarrow> Some (n, pos)
          | Some m \<Rightarrow>
              do { w \<leftarrow> get_width st n offset;
                   if pos + w \<le> position
                   then position_walk st position offset m (pos + w)
                   else Some (n, pos) } }"

declare position_walk.simps [code]

fun position_levels ::
  "'a store \<Rightarrow> u64 \<Rightarrow> bool \<Rightarrow> nat \<Rightarrow> nat \<Rightarrow> u64 \<Rightarrow> SkipList \<Rightarrow> (nat \<times> u64 \<times> SkipList) option"
  where
  "position_levels st position upd 0 n pos sl = Some (n, pos, sl)"
| "position_levels st position upd (Suc offset) n pos sl =
     do { (n', pos') \<leftarrow> position_walk st position offset n pos;
          sl' \<leftarrow> remember upd offset n' pos' sl;
          position_levels st position upd offset n' pos' sl' }"

definition searchByPosition ::
  "'a store \<Rightarrow> SkipList \<Rightarrow> u64 \<Rightarrow> bool \<Rightarrow> (nat option \<times> u64 \<times> SkipList) option" where
  "searchByPosition st sl position upd =
     (if Len sl = 0 then Some (None, 1, sl)
      else if position > Len sl then Some (None, 1, sl)
      else do { (n, pos, sl') \<leftarrow> position_levels st position upd (Suc (level sl)) (head sl) 0 sl;
                Some (Some n, pos + 1, sl') })"

text \<open>\<open>resetMaxLevel\<close>, and the same loop at the end of \<open>delete\<close>, which also clears a
  width of the head.\<close>

function resetMaxLevel_loop :: "'a store \<Rightarrow> SkipList \<Rightarrow> SkipList option" where
  "resetMaxLevel_loop st sl =
     do { f \<leftarrow> get_forward st (head sl) (level sl - 1);
          if f = None \<and> level sl > 1
          then resetMaxLevel_loop st (sl\<lparr>level := level sl - 1\<rparr>)
          else Some sl }"
  by pat_completeness auto
termination
  by (relation "measure (\<lambda>(st, sl). level sl)") auto

declare resetMaxLevel_loop.simps [simp del]

definition resetMaxLevel :: "'a store \<Rightarrow> SkipList \<Rightarrow> SkipList option" where
  "resetMaxLevel st sl =
     (if level sl < 1 then Some (sl\<lparr>level := 1\<rparr>) else resetMaxLevel_loop st sl)"

function lower_level :: "'a store \<Rightarrow> SkipList \<Rightarrow> ('a store \<times> SkipList) option" where
  "lower_level st sl =
     (if level sl > 1 then
        do { f \<leftarrow> get_forward st (head sl) (level sl - 1);
             if f = None
             then do { st' \<leftarrow> set_width st (head sl) (level sl) 0;
                       lower_level st' (sl\<lparr>level := level sl - 1\<rparr>) }
             else Some (st, sl) }
      else Some (st, sl))"
  by pat_completeness auto
termination
  by (relation "measure (\<lambda>(st, sl). level sl)") auto

declare lower_level.simps [simp del]

text \<open>
  \<open>insertNode\<close>. The result carries the overwritten entry, if there is one. The first
  loop links the new node in at every level below its own, the second widens the edges
  that pass over it.
\<close>

definition raise_cache :: "SkipList \<Rightarrow> nat \<Rightarrow> SkipList option" where
  "raise_cache sl nodeLevel =
     (if nodeLevel > level sl then
        do { c \<leftarrow> for_levels (\<lambda>i c. upd_opt c i (Some (head sl))) [level sl..<nodeLevel] (cache sl);
             Some (sl\<lparr>cache := c, level := nodeLevel\<rparr>) }
      else Some sl)"

definition link_level :: "SkipList \<Rightarrow> nat \<Rightarrow> u64 \<Rightarrow> nat \<Rightarrow> 'a store \<Rightarrow> 'a store option" where
  "link_level sl nn pos i st =
     do { c \<leftarrow> cache_at sl i;
          f \<leftarrow> get_forward st c i;
          st \<leftarrow> set_forward st nn i f;
          st \<leftarrow> set_forward st c i (Some nn);
          formerWidth \<leftarrow> get_width st c i;
          pc \<leftarrow> nth_opt (posCache sl) i;
          st \<leftarrow> set_width st nn i (if formerWidth = 0 then 0 else pc + formerWidth + 1 - pos);
          f' \<leftarrow> get_forward st c i;
          if f' \<noteq> None then set_width st c i (pos - pc) else Some st }"

definition widen_level :: "SkipList \<Rightarrow> nat \<Rightarrow> 'a store \<Rightarrow> 'a store option" where
  "widen_level sl i st =
     do { c \<leftarrow> cache_at sl i;
          f \<leftarrow> get_forward st c i;
          if f = None then Some st
          else do { w \<leftarrow> get_width st c i; set_width st c i (w + 1) } }"

definition insertNode ::
  "(nat \<Rightarrow> bool) \<Rightarrow> ('a \<Rightarrow> 'a \<Rightarrow> int) \<Rightarrow> 'a store \<Rightarrow> SkipList \<Rightarrow> nat option \<Rightarrow> 'a \<Rightarrow> u64 \<Rightarrow> bool \<Rightarrow>
   ('a store \<times> SkipList \<times> 'a option) option" where
  "insertNode rnd cmp st sl n key pos allowDuplicate =
     (if \<not> allowDuplicate \<and> n \<noteq> None \<and> hasEntry (mem st (the n)) \<and>
         cmp (entry (mem st (the n))) key = 0
      then Some (set_entry st (the n) key, sl, Some (entry (mem st (the n))))
      else
        do { let sl = sl\<lparr>num := num sl + 1\<rparr>;
             let (nodeLevel, g) = generateLevel rnd (maxLevel sl) (draws st);
             let st = st\<lparr>draws := g\<rparr>;
             sl \<leftarrow> raise_cache sl nodeLevel;
             let (nn, st) = newNode key True nodeLevel st;
             st \<leftarrow> for_levels (link_level sl nn pos) [0..<nodeLevel] st;
             st \<leftarrow> for_levels (widen_level sl) [nodeLevel..<level sl] st;
             Some (st, sl, None) })"

definition insert_skip ::
  "(nat \<Rightarrow> bool) \<Rightarrow> ('a \<Rightarrow> 'a \<Rightarrow> int) \<Rightarrow> 'a \<Rightarrow> 'a store \<times> SkipList \<Rightarrow>
   ('a store \<times> SkipList \<times> 'a option) option" where
  "insert_skip rnd cmp key s =
     (case s of (st, sl) \<Rightarrow>
        do { (n, pos, sl) \<leftarrow> search st cmp sl key True;
             insertNode rnd cmp st sl n key pos False })"

text \<open>\<open>Insert\<close>, \<open>Delete\<close> and \<open>Get\<close> take several keys and answer with a slot per key.\<close>

fun Insert_skip ::
  "(nat \<Rightarrow> bool) \<Rightarrow> ('a \<Rightarrow> 'a \<Rightarrow> int) \<Rightarrow> 'a list \<Rightarrow> 'a store \<times> SkipList \<Rightarrow>
   (('a store \<times> SkipList) \<times> 'a option list) option" where
  "Insert_skip rnd cmp [] s = Some (s, [])"
| "Insert_skip rnd cmp (key # keys) s =
     do { (st, sl, r) \<leftarrow> insert_skip rnd cmp key s;
          (s', rs) \<leftarrow> Insert_skip rnd cmp keys (st, sl);
          Some (s', r # rs) }"

text \<open>\<open>delete\<close>: one level of the unlinking loop, then the loop that lowers the level.\<close>

definition unlink_level :: "SkipList \<Rightarrow> nat \<Rightarrow> nat \<Rightarrow> 'a store \<Rightarrow> 'a store option" where
  "unlink_level sl n i st =
     do { c \<leftarrow> cache_at sl i;
          f \<leftarrow> get_forward st c i;
          if f \<noteq> Some n then
            (if f \<noteq> None
             then do { w \<leftarrow> get_width st c i; set_width st c i (w - 1) }
             else Some st)
          else
            do { w \<leftarrow> get_width st c i;
                 nw \<leftarrow> get_width st n i;
                 st \<leftarrow> set_width st c i (w + (nw - 1));
                 nf \<leftarrow> get_forward st n i;
                 set_forward st c i nf } }"

definition delete_skip ::
  "('a \<Rightarrow> 'a \<Rightarrow> int) \<Rightarrow> 'a \<Rightarrow> 'a store \<times> SkipList \<Rightarrow> ('a store \<times> SkipList \<times> 'a option) option"
  where
  "delete_skip cmp key s =
     (case s of (st, sl) \<Rightarrow>
        do { (n, pos, sl) \<leftarrow> search st cmp sl key True;
             if n = None \<or> \<not> hasEntry (mem st (the n)) \<or> cmp (entry (mem st (the n))) key \<noteq> 0
             then Some (st, sl, None)
             else
               do { let sl = sl\<lparr>num := num sl + (- 1)\<rparr>;
                    st \<leftarrow> for_levels (unlink_level sl (the n)) [0..<Suc (level sl)] st;
                    (st, sl) \<leftarrow> lower_level st sl;
                    Some (st, sl, Some (entry (mem st (the n)))) } })"

fun Delete_skip ::
  "('a \<Rightarrow> 'a \<Rightarrow> int) \<Rightarrow> 'a list \<Rightarrow> 'a store \<times> SkipList \<Rightarrow>
   (('a store \<times> SkipList) \<times> 'a option list) option" where
  "Delete_skip cmp [] s = Some (s, [])"
| "Delete_skip cmp (key # keys) s =
     do { (st, sl, r) \<leftarrow> delete_skip cmp key s;
          (s', rs) \<leftarrow> Delete_skip cmp keys (st, sl);
          Some (s', r # rs) }"

fun Get_skip ::
  "('a \<Rightarrow> 'a \<Rightarrow> int) \<Rightarrow> 'a list \<Rightarrow> 'a store \<times> SkipList \<Rightarrow> 'a option list option" where
  "Get_skip cmp [] s = Some []"
| "Get_skip cmp (key # keys) s =
     (case s of (st, sl) \<Rightarrow>
        do { (n, pos, sl') \<leftarrow> search st cmp sl key False;
             rs \<leftarrow> Get_skip cmp keys s;
             Some ((if n \<noteq> None \<and> hasEntry (mem st (the n)) \<and> cmp (entry (mem st (the n))) key = 0
                    then Some (entry (mem st (the n))) else None) # rs) })"

text \<open>\<open>GetWithPosition\<close> and \<open>ByPosition\<close>: entry (with rank), or nothing for "not found".\<close>

definition GetWithPosition ::
  "('a \<Rightarrow> 'a \<Rightarrow> int) \<Rightarrow> 'a \<Rightarrow> 'a store \<times> SkipList \<Rightarrow> ('a \<times> u64) option option" where
  "GetWithPosition cmp key s =
     (case s of (st, sl) \<Rightarrow>
        do { (n, pos, sl') \<leftarrow> search st cmp sl key False;
             if n = None \<or> \<not> hasEntry (mem st (the n)) then Some None
             else Some (Some (entry (mem st (the n)), pos - 1)) })"

definition ByPosition :: "u64 \<Rightarrow> 'a store \<times> SkipList \<Rightarrow> 'a option option" where
  "ByPosition position s =
     (case s of (st, sl) \<Rightarrow>
        do { (n, pos, sl') \<leftarrow> searchByPosition st sl (position + 1) False;
             if n = None \<or> \<not> hasEntry (mem st (the n)) then Some None
             else Some (Some (entry (mem st (the n)))) })"

text \<open>\<open>splitAt\<close> and \<open>SplitAt\<close>. Both lists live in the one store afterwards.\<close>

definition sever_level ::
  "nat \<Rightarrow> u64 \<Rightarrow> SkipList \<Rightarrow> nat \<Rightarrow> 'a store \<Rightarrow> 'a store option" where
  "sever_level rhead index sl i st =
     do { c \<leftarrow> cache_at sl i;
          f \<leftarrow> get_forward st c i;
          st \<leftarrow> set_forward st rhead i f;
          f' \<leftarrow> get_forward st c i;
          st \<leftarrow> (if f' \<noteq> None
                 then do { w \<leftarrow> get_width st c i;
                           pc \<leftarrow> nth_opt (posCache sl) i;
                           set_width st rhead i (w - (index - pc)) }
                 else Some st);
          st \<leftarrow> set_width st c i 0;
          set_forward st c i None }"

definition splitAt ::
  "'a \<Rightarrow> 'a store \<Rightarrow> SkipList \<Rightarrow> u64 \<Rightarrow> ('a store \<times> SkipList \<times> SkipList) option" where
  "splitAt zero st sl index =
     do { let (rhead, st) = newNode zero False (maxLevel sl) st;
          let right = \<lparr>maxLevel = maxLevel sl, level = level sl, head = rhead, num = 0,
                       cache = replicate (maxLevel sl) None,
                       posCache = replicate (maxLevel sl) 0\<rparr>;
          (n, pos, sl) \<leftarrow> searchByPosition st sl index True;
          st \<leftarrow> for_levels (sever_level rhead index sl) [0..<Suc (level sl)] st;
          let right = right\<lparr>num := Len sl - index\<rparr>;
          let sl = sl\<lparr>num := num sl + (- num right)\<rparr>;
          sl \<leftarrow> resetMaxLevel st sl;
          right \<leftarrow> resetMaxLevel st right;
          Some (st, sl, right) }"

definition SplitAt ::
  "'a \<Rightarrow> u64 \<Rightarrow> 'a store \<times> SkipList \<Rightarrow> ('a store \<times> SkipList \<times> SkipList option) option" where
  "SplitAt zero index s =
     (case s of (st, sl) \<Rightarrow>
        (let index = index + 1 in
         if index \<ge> Len sl then Some (st, sl, None)
         else do { (st, left, right) \<leftarrow> splitAt zero st sl index;
                   Some (st, left, Some right) }))"

text \<open>The comparison of the package's usage example (\<open>int(m - other)\<close>, on values whose
  difference does not overflow), and a store in which nothing has been allocated.\<close>

definition MyInt_Compare :: "int \<Rightarrow> int \<Rightarrow> int" where
  "MyInt_Compare m other = m - other"

definition empty_store :: "'a \<Rightarrow> 'a store" where
  "empty_store zero =
     \<lparr>mem = (\<lambda>a. \<lparr>forward = [], widths = [], entry = zero, hasEntry = False\<rparr>),
      nxt = 0, draws = 0\<rparr>"

section \<open>Properties of the unbounded queue\<close>

subsection \<open>Facts about the buffer\<close>

lemma items_get_loop_take:
  "0 \<le> i \<Longrightarrow> returnItems = take (nat i) its \<Longrightarrow> nat i \<le> length its \<Longrightarrow>
   items_get_loop i n its returnItems = take (nat (max i n)) its"
proof (induction i n its returnItems rule: items_get_loop.induct)
  case (1 i n its returnItems)
  show ?case
  proof (cases "i < n")
    case False
    with "1.prems" show ?thesis
      by (simp add: max_def)
  next
    case True
    note lt = this
    show ?thesis
    proof (cases "i \<ge> int (length its)")
      case True
      with "1.prems" lt show ?thesis
        by (subst items_get_loop.simps) (simp add: max_def)
    next
      case False
      with "1.prems" have idx: "nat i < length its" by linarith
      have step: "take (nat i) its @ [its ! nat i] = take (nat (i + 1)) its"
        using idx "1.prems"(1) by (simp add: nat_add_distrib take_Suc_conv_app_nth)
      have "items_get_loop (i + 1) n its (returnItems @ [its ! nat i])
              = take (nat (max (i + 1) n)) its"
        using "1.IH" [OF lt False] "1.prems" idx step by (simp add: nat_add_distrib)
      moreover have "max (i + 1) n = max i n" using lt by simp
      ultimately show ?thesis
        using lt False by (subst items_get_loop.simps) simp
    qed
  qed
qed

lemma items_get_take_drop:
  "items_get its n = (take (nat n) its, drop (nat n) its)"
proof -
  have "items_get_loop 0 n its [] = take (nat (max 0 n)) its"
    by (rule items_get_loop_take) simp_all
  moreover have "nat (max 0 n) = nat n" by simp
  ultimately have l: "items_get_loop 0 n its [] = take (nat n) its" by simp
  have "drop (length (take (nat n) its)) its = drop (nat n) its"
    by (cases "nat n \<le> length its") (simp_all add: min_def)
  with l show ?thesis by (simp add: items_get_def)
qed

lemma items_get_append: "items_get its n = (r, rest) \<Longrightarrow> r @ rest = its"
  by (auto simp: items_get_take_drop)

lemma getUntil_loop_takeWhile: "getUntil_loop c its = takeWhile c its"
  by (induction its) auto

lemma items_getUntil_takeWhile:
  "items_getUntil its c = (takeWhile c its, dropWhile c its)"
  by (cases its) (auto simp: items_getUntil_def getUntil_loop_takeWhile dropWhile_eq_drop)

lemma notify_append:
  "notify w its = (w', its', woken) \<Longrightarrow> concat (map handed woken) @ its' = its"
proof (induction w arbitrary: its w' its' woken)
  case Nil
  then show ?case by simp
next
  case (Cons s w)
  show ?case
  proof (cases "ready s \<or> fired s")
    case True
    show ?thesis
    proof (cases "its = []")
      case True
      with Cons.prems \<open>ready s \<or> fired s\<close> show ?thesis by (auto split: if_splits)
    next
      case False
      obtain w1 its1 others where n: "notify w its = (w1, its1, others)"
        by (cases "notify w its") auto
      from Cons.IH [OF n] have "concat (map handed others) @ its1 = its" .
      with Cons.prems \<open>ready s \<or> fired s\<close> False n show ?thesis
        by (auto split: if_splits)
    qed
  next
    case False
    obtain r rest where g: "items_get its (number s) = (r, rest)"
      by (cases "items_get its (number s)")
    have app: "r @ rest = its" using g by (rule items_get_append)
    show ?thesis
    proof (cases "rest = []")
      case True
      with Cons.prems False g app show ?thesis by auto
    next
      case nonempty: False
      obtain w1 its1 others where n: "notify w rest = (w1, its1, others)"
        by (cases "notify w rest") auto
      from Cons.IH [OF n] have "concat (map handed others) @ its1 = rest" .
      with Cons.prems False g nonempty n app show ?thesis by auto
    qed
  qed
qed

lemma handed_released: "handed (released s) = []"
  by (simp add: released_def)

lemma prefix_le_takeWhile:
  assumes "n \<le> length xs" and "\<forall>x\<in>set (take n xs). P x"
  shows "n \<le> length (takeWhile P xs)"
proof -
  have "takeWhile P (take n xs @ drop n xs) = take n xs @ takeWhile P (drop n xs)"
    using assms(2) by (intro takeWhile_append2) simp
  then have "length (takeWhile P xs) = length (take n xs) + length (takeWhile P (drop n xs))"
    by simp
  with assms(1) show ?thesis by simp
qed

text \<open>Every event keeps the books: what was handed out, followed by what is left in the
  buffer, is what was in the buffer followed by what was taken in.\<close>

lemma exec_keeps_order:
  assumes "exec c q = (q', taken, accepted)"
  shows "taken @ items q' = items q @ accepted"
proof (cases c)
  case (CPut xs)
  show ?thesis
  proof (cases "xs = [] \<or> disposed q")
    case True
    with CPut assms show ?thesis by (auto simp: Put_def split: if_splits)
  next
    case False
    obtain w its woken where n: "notify (waiters q) (items q @ xs) = (w, its, woken)"
      by (cases "notify (waiters q) (items q @ xs)") auto
    from notify_append [OF n] have "concat (map handed woken) @ its = items q @ xs" .
    with CPut assms False n show ?thesis by (auto simp: Put_def)
  qed
next
  case (CPoll n t)
  obtain r rest where g: "items_get (items q) n = (r, rest)"
    by (cases "items_get (items q) n")
  from items_get_append [OF g] have "r @ rest = items q" .
  with CPoll assms g show ?thesis
    by (auto simp: Poll_def split: if_splits)
next
  case (CTakeUntil c')
  with assms show ?thesis
    by (auto simp: TakeUntil_def items_getUntil_takeWhile split: if_splits)
next
  case CDispose
  with assms show ?thesis by (auto simp: Dispose_def handed_released)
next
  case (CExpire i)
  with assms show ?thesis by (auto simp: expire_def split: if_splits)
next
  case (CReclaim i)
  with assms show ?thesis by (auto simp: reclaim_def split: if_splits)
next
  case (CLeave i)
  with assms show ?thesis by (auto simp: leave_def split: if_splits)
qed

lemma run_keeps_order:
  "run cs q = (q', taken, accepted) \<Longrightarrow> taken @ items q' = items q @ accepted"
proof (induction cs arbitrary: q q' taken accepted)
  case Nil
  then show ?case by simp
next
  case (Cons c cs)
  obtain q1 t1 a1 where e: "exec c q = (q1, t1, a1)" by (cases "exec c q")
  obtain q2 t2 a2 where r: "run cs q1 = (q2, t2, a2)" by (cases "run cs q1")
  from exec_keeps_order [OF e] have s1: "t1 @ items q1 = items q @ a1" .
  from Cons.IH [OF r] have s2: "t2 @ items q2 = items q1 @ a2" .
  from Cons.prems e r have eq: "q' = q2" "taken = t1 @ t2" "accepted = a1 @ a2" by simp_all
  have "(t1 @ t2) @ items q2 = t1 @ items q1 @ a2" using s2 by simp
  also have "\<dots> = (t1 @ items q1) @ a2" by simp
  also have "\<dots> = items q @ a1 @ a2" using s1 by simp
  finally show ?case using eq by simp
qed

text \<open>A disposed queue with no buffer and no waiter is not changed by any event.\<close>

lemma exec_disposed:
  assumes "disposed q" and "items q = []" and "waiters q = []"
  shows "exec c q = (q, [], [])"
proof (cases c)
  case (CPut xs)
  with assms show ?thesis by (simp add: Put_def)
next
  case (CPoll n t)
  with assms show ?thesis by (simp add: Poll_def)
next
  case (CTakeUntil c')
  with assms show ?thesis by (simp add: TakeUntil_def)
next
  case CDispose
  with assms show ?thesis by (simp add: Dispose_def)
next
  case (CExpire i)
  with assms show ?thesis by (simp add: expire_def)
next
  case (CReclaim i)
  with assms show ?thesis by (simp add: reclaim_def)
next
  case (CLeave i)
  with assms show ?thesis by (simp add: leave_def)
qed

lemma run_disposed:
  "disposed q \<Longrightarrow> items q = [] \<Longrightarrow> waiters q = [] \<Longrightarrow> run cs q = (q, [], [])"
  by (induction cs) (simp_all add: exec_disposed)

subsection \<open>Claims about the queue\<close>

text \<open>
  C10. A \<open>Put\<close> of zero items succeeds and leaves the queue as it was, whatever its
  state: the length test comes before the disposed test, so a disposed queue does not
  answer \<open>ErrDisposed\<close> to it, and no waiter is woken.
\<close>

theorem Put_nothing_succeeds:
  "Put q [] = (None, q, []) \<and>
   Put (q\<lparr>disposed := True\<rparr>) [] = (None, q\<lparr>disposed := True\<rparr>, [])"
  by (simp add: Put_def)

text \<open>
  C8. On a queue that is not disposed, \<open>TakeUntil\<close> with a checker returns without
  error a prefix of the buffer on which the checker holds, no shorter than any other
  such prefix; the rest of the buffer stays in order, nothing else in the queue
  changes, the caller never parks, and an empty buffer gives an empty result.
\<close>

theorem TakeUntil_longest_prefix:
  "\<not> disposed q \<Longrightarrow>
   (case TakeUntil q (Some pred) of
      ((r, e), q') \<Rightarrow>
        e = None \<and> r @ items q' = items q \<and> (\<forall>x\<in>set r. pred x) \<and>
        (\<forall>n\<le>length (items q). (\<forall>x\<in>set (take n (items q)). pred x) \<longrightarrow> n \<le> length r) \<and>
        q' = q\<lparr>items := drop (length r) (items q)\<rparr> \<and>
        (items q = [] \<longrightarrow> r = []))"
  by (auto simp: TakeUntil_def items_getUntil_takeWhile prefix_le_takeWhile
           dropWhile_eq_drop [symmetric] dest: set_takeWhileD)

theorem TakeUntil_longest_prefix_witness:
  "\<not> disposed \<lparr>waiters = [], items = [1, 2, 3, 4, 5 :: int], disposed = False\<rparr> \<and>
   TakeUntil \<lparr>waiters = [], items = [1, 2, 3, 4, 5 :: int], disposed = False\<rparr>
       (Some (\<lambda>item. item < 4))
     = (([1, 2, 3], None), \<lparr>waiters = [], items = [4, 5], disposed = False\<rparr>)"
  using TakeUntil_longest_prefix
    [of "\<lparr>waiters = [], items = [1, 2, 3, 4, 5 :: int], disposed = False\<rparr>" "\<lambda>item. item < 4"]
  by (simp add: TakeUntil_def items_getUntil_def)

text \<open>
  C7, as stated, fails: after \<open>Dispose\<close>, a \<open>Get\<close> that asks for fewer than one item
  returns an empty slice and no error, because \<open>Poll\<close> tests the number before the
  disposed flag.
\<close>

theorem Dispose_then_Get_counterexample:
  "fst (Get (fst (snd (Dispose \<lparr>waiters = [], items = [1, 2, 3 :: int], disposed = False\<rparr>))) 0)
     = Returned [] None \<and>
   fst (Get (fst (snd (Dispose \<lparr>waiters = [], items = [1, 2, 3 :: int], disposed = False\<rparr>))) 0)
     \<noteq> Returned [] (Some ErrDisposed)"
  by (simp add: Get_def Poll_def Dispose_def)

text \<open>
  C7, amended. Take a queue built by \<open>New\<close> and any history on it: calls of \<open>Put\<close>, \<open>Poll\<close>,
  \<open>Get\<close>, \<open>TakeUntil\<close> and \<open>Dispose\<close>, consumers that park, and timers that fire in any
  order. A \<open>Dispose\<close> then returns the items that were taken in and not yet handed out,
  in the order of their arrival: what consumers and earlier disposers received,
  followed by what this \<open>Dispose\<close> returns, is the sequence of items taken in. It marks
  the queue disposed. After it, whatever further events happen, nothing more is handed
  out or taken in, another \<open>Dispose\<close> returns nothing, every \<open>Put\<close> of one or more items
  returns \<open>ErrDisposed\<close>, and every \<open>Poll\<close> or \<open>Get\<close> that asks for at least one item
  returns \<open>ErrDisposed\<close>. A \<open>Poll\<close> that asks for fewer than one item returns an empty
  slice and no error on every queue, disposed or not.
\<close>

theorem Dispose_returns_pending:
  "New hint = Some q0 \<Longrightarrow> run cs q0 = (q, taken, accepted) \<Longrightarrow>
   (case Dispose q of
      (its, q', woken) \<Rightarrow>
        taken @ its = accepted \<and> its = items q \<and> disposed q' \<and>
        (\<forall>cs'. case run cs' q' of
                 (q'', taken', accepted') \<Rightarrow>
                   taken' = [] \<and> accepted' = [] \<and> disposed q'' \<and>
                   fst (Dispose q'') = [] \<and>
                   (\<forall>xs. xs \<noteq> [] \<longrightarrow> fst (Put q'' xs) = Some ErrDisposed) \<and>
                   (\<forall>n t. 1 \<le> n \<longrightarrow> fst (Poll q'' n t) = Returned [] (Some ErrDisposed)) \<and>
                   (\<forall>n. 1 \<le> n \<longrightarrow> fst (Get q'' n) = Returned [] (Some ErrDisposed)))) \<and>
   (n < 1 \<longrightarrow> Poll p n t = (Returned [] None, p) \<and> Get p n = (Returned [] None, p))"
proof -
  assume new: "New hint = Some q0" and run: "run cs q0 = (q, taken, accepted)"
  from new have "items q0 = []" by (auto simp: New_def split: if_splits)
  with run_keeps_order [OF run] have order: "taken @ items q = accepted" by simp
  define q' where "q' = q\<lparr>disposed := True, items := [], waiters := []\<rparr>"
  have d: "Dispose q = (items q, q', map released (waiters q))"
    by (simp add: Dispose_def q'_def)
  have sticky: "run cs' q' = (q', [], [])" for cs'
    by (rule run_disposed) (simp_all add: q'_def)
  have flag: "disposed q'" "fst (Dispose q') = []"
    by (simp_all add: q'_def Dispose_def)
  have after: "fst (Put q' xs) = Some ErrDisposed" if "xs \<noteq> []" for xs
    using that by (simp add: q'_def Put_def)
  have polls: "fst (Poll q' m t') = Returned [] (Some ErrDisposed)"
    "fst (Get q' m) = Returned [] (Some ErrDisposed)" if "1 \<le> m" for m t'
    using that by (simp_all add: q'_def Poll_def Get_def)
  have none: "n < 1 \<longrightarrow> Poll p n t = (Returned [] None, p) \<and> Get p n = (Returned [] None, p)"
    by (simp add: Poll_def Get_def)
  show ?thesis
    using order flag after polls none by (simp add: d sticky)
qed

theorem Dispose_returns_pending_witness:
  "New 10 = Some \<lparr>waiters = [], items = [], disposed = False\<rparr> \<and>
   run [CPoll 1 50, CExpire 0, CReclaim 0, CLeave 0, CPut [42, 43 :: int], CPoll 1 50]
       \<lparr>waiters = [], items = [], disposed = False\<rparr>
     = (\<lparr>waiters = [], items = [43], disposed = False\<rparr>, [42], [42, 43]) \<and>
   Dispose \<lparr>waiters = [], items = [43 :: int], disposed = False\<rparr>
     = ([43], \<lparr>waiters = [], items = [], disposed = True\<rparr>, []) \<and>
   fst (run [CPut [44], CDispose] \<lparr>waiters = [], items = [] :: int list, disposed = True\<rparr>)
     = \<lparr>waiters = [], items = [], disposed = True\<rparr> \<and>
   fst (Put \<lparr>waiters = [], items = [] :: int list, disposed = True\<rparr> [44]) = Some ErrDisposed \<and>
   fst (Poll \<lparr>waiters = [], items = [] :: int list, disposed = True\<rparr> 1 50)
     = Returned [] (Some ErrDisposed)"
  using Dispose_returns_pending
    [of 10 "\<lparr>waiters = [], items = [], disposed = False\<rparr>"
        "[CPoll 1 50, CExpire 0, CReclaim 0, CLeave 0, CPut [42, 43 :: int], CPoll 1 50]"
        "\<lparr>waiters = [], items = [43], disposed = False\<rparr>" "[42]" "[42, 43]" 0
        "\<lparr>waiters = [], items = [], disposed = True\<rparr>" 0]
  by (simp add: New_def Put_def Poll_def Dispose_def expire_def reclaim_def leave_def
        waiters_put_def waiters_remove_def enumerate_eq_zip items_get_take_drop)

section \<open>Properties of the priority queue\<close>

lemma heap_ok_iff:
  "heap_ok cmp xs \<longleftrightarrow> (\<forall>i. 0 < i \<and> i < length xs \<longrightarrow> cmp (xs ! ((i - 1) div 2)) (xs ! i) \<le> 0)"
  by (auto simp: heap_ok_def list_all_iff)

lemma ok_refl: "ordered_key cmp \<Longrightarrow> cmp x x \<le> 0"
  by (simp add: ordered_key_def)

lemma ok_flip: "ordered_key cmp \<Longrightarrow> 0 < cmp x y \<Longrightarrow> cmp y x \<le> 0"
  unfolding ordered_key_def by (metis less_le_not_le)

lemma ok_total: "ordered_key cmp \<Longrightarrow> \<not> cmp x y < 0 \<Longrightarrow> cmp y x \<le> 0"
  unfolding ordered_key_def by (metis not_le)

lemma ok_less: "ordered_key cmp \<Longrightarrow> cmp x y < 0 \<Longrightarrow> cmp x y \<le> 0"
  by simp

lemma ok_trans: "ordered_key cmp \<Longrightarrow> cmp x y \<le> 0 \<Longrightarrow> cmp y z \<le> 0 \<Longrightarrow> cmp x z \<le> 0"
  unfolding ordered_key_def by blast

lemma parent_less: "0 < i \<Longrightarrow> (i - 1) div 2 < (i::nat)"
  by arith

lemma length_items_swap [simp]: "length (items_swap xs i j) = length xs"
  by (simp add: items_swap_def)

lemma mset_items_swap:
  "i < length xs \<Longrightarrow> j < length xs \<Longrightarrow> mset (items_swap xs i j) = mset xs"
  by (simp add: items_swap_def mset_swap)

lemma nth_items_swap:
  "i < length xs \<Longrightarrow> j < length xs \<Longrightarrow> k < length xs \<Longrightarrow>
   items_swap xs i j ! k = (if k = j then xs ! i else if k = i then xs ! j else xs ! k)"
  by (auto simp: items_swap_def nth_list_update)

lemma push_loop_heap:
  assumes ok: "ordered_key cmp"
  shows "k < length xs \<Longrightarrow> xs ! k = item \<Longrightarrow> up_inv cmp xs k \<Longrightarrow>
         \<exists>ys. push_loop cmp item xs k = Some ys \<and> heap_ok cmp ys \<and> mset ys = mset xs"
proof (induction k arbitrary: xs rule: less_induct)
  case (less k)
  let ?p = "(k - 1) div 2"
  show ?case
  proof (cases "cmp (xs ! ?p) item > 0")
    case False
    then have le: "cmp (xs ! ?p) (xs ! k) \<le> 0" using less.prems by simp
    have "heap_ok cmp xs"
      unfolding heap_ok_iff
    proof (intro allI impI)
      fix i assume "0 < i \<and> i < length xs"
      then show "cmp (xs ! ((i - 1) div 2)) (xs ! i) \<le> 0"
        using less.prems(3) le unfolding up_inv_def by (cases "i = k") auto
    qed
    with False show ?thesis
      by (subst push_loop.simps) simp
  next
    case True
    have kpos: "0 < k"
    proof (rule ccontr)
      assume "\<not> 0 < k"
      then have "k = 0" by simp
      with True less.prems ok_refl [OF ok, of item] show False by simp
    qed
    then have plt: "?p < k" by (rule parent_less)
    with less.prems have plen: "?p < length xs" by simp
    let ?ys = "items_swap xs k ?p"
    have ysk: "?ys ! k = xs ! ?p" and ysp: "?ys ! ?p = item"
      using less.prems plen plt by (simp_all add: nth_items_swap)
    have ysi: "?ys ! i = xs ! i" if "i < length xs" "i \<noteq> k" "i \<noteq> ?p" for i
      using that less.prems plen by (simp add: nth_items_swap)
    have lt: "cmp item (xs ! ?p) \<le> 0" using ok_flip [OF ok True] .
    have inv: "up_inv cmp ?ys ?p"
      unfolding up_inv_def
    proof (intro conjI allI impI)
      fix i assume a: "0 < i \<and> i < length ?ys \<and> i \<noteq> ?p"
      then have ilen: "i < length xs" by simp
      let ?q = "(i - 1) div 2"
      have qlt: "?q < i" using a parent_less [of i] by simp
      show "cmp (?ys ! ?q) (?ys ! i) \<le> 0"
      proof (cases "i = k")
        case True
        then show ?thesis using ysk ysp lt by simp
      next
        case ik: False
        have i1: "?ys ! i = xs ! i" using ysi ilen ik a by simp
        have base: "cmp (xs ! ?q) (xs ! i) \<le> 0"
          using less.prems(3) a ik ilen unfolding up_inv_def by simp
        show ?thesis
        proof (cases "?q = k")
          case True
          have "cmp (xs ! ?p) (xs ! i) \<le> 0"
            using less.prems(3) a ilen True kpos unfolding up_inv_def by blast
          then show ?thesis using True ysk i1 by simp
        next
          case qk: False
          show ?thesis
          proof (cases "?q = ?p")
            case True
            have "cmp (xs ! ?p) (xs ! i) \<le> 0" using base True by simp
            from ok_trans [OF ok lt this] show ?thesis using True ysp i1 by simp
          next
            case False
            have "?ys ! ?q = xs ! ?q" using ysi qlt ilen qk False by simp
            then show ?thesis using base i1 by simp
          qed
        qed
      qed
    next
      fix i assume a: "0 < i \<and> i < length ?ys \<and> (i - 1) div 2 = ?p \<and> 0 < ?p"
      then have ilen: "i < length xs" by simp
      let ?pp = "(?p - 1) div 2"
      have pplt: "?pp < ?p" using a parent_less [of ?p] by simp
      have ypp: "?ys ! ?pp = xs ! ?pp" using ysi pplt plt plen by simp
      have ppp: "cmp (xs ! ?pp) (xs ! ?p) \<le> 0"
        using less.prems(3) a plen plt unfolding up_inv_def by simp
      show "cmp (?ys ! ?pp) (?ys ! i) \<le> 0"
      proof (cases "i = k")
        case True
        then show ?thesis using ysk ypp ppp by simp
      next
        case False
        have ip: "i \<noteq> ?p" using a parent_less [of i] by simp
        have "cmp (xs ! ?p) (xs ! i) \<le> 0"
          using less.prems(3) a ilen False unfolding up_inv_def by metis
        from ok_trans [OF ok ppp this] show ?thesis using ysi ilen False ip ypp by simp
      qed
    qed
    from less.IH [OF plt _ ysp inv] plen
    obtain zs where "push_loop cmp item ?ys ?p = Some zs" "heap_ok cmp zs" "mset zs = mset ?ys"
      by auto
    moreover have "mset ?ys = mset xs" using less.prems plen by (simp add: mset_items_swap)
    ultimately show ?thesis using True
      by (subst push_loop.simps) simp
  qed
qed


lemma push_heap:
  assumes ok: "ordered_key cmp" and h: "heap_ok cmp xs"
  shows "\<exists>ys. push cmp xs item = Some ys \<and> heap_ok cmp ys \<and> mset ys = add_mset item (mset xs)"
proof -
  let ?zs = "xs @ [item]"
  have inv: "up_inv cmp ?zs (length xs)"
    unfolding up_inv_def
  proof (intro conjI allI impI)
    fix i assume a: "0 < i \<and> i < length ?zs \<and> i \<noteq> length xs"
    then have i: "i < length xs" by simp
    moreover have "(i - 1) div 2 < length xs" using parent_less [of i] a i by simp
    ultimately show "cmp (?zs ! ((i - 1) div 2)) (?zs ! i) \<le> 0"
      using h a unfolding heap_ok_iff by (simp add: nth_append)
  next
    fix i assume a: "0 < i \<and> i < length ?zs \<and> (i - 1) div 2 = length xs \<and> 0 < length xs"
    then have False using parent_less [of i] by simp
    then show "cmp (?zs ! ((length xs - 1) div 2)) (?zs ! i) \<le> 0" ..
  qed
  have "\<exists>ys. push_loop cmp item ?zs (length xs) = Some ys \<and> heap_ok cmp ys \<and> mset ys = mset ?zs"
    by (rule push_loop_heap [OF ok _ _ inv]) simp_all
  then show ?thesis by (simp add: push_def)
qed

lemma child_iff: "0 < i \<Longrightarrow> ((i - 1) div 2 = k) = (i = 2 * k + 1 \<or> i = 2 * k + 2)"
  for i k :: nat
  by arith

lemma pop_loop_heap:
  "ordered_key cmp \<Longrightarrow> down_inv cmp xs k \<Longrightarrow>
   heap_ok cmp (pop_loop cmp xs k) \<and> mset (pop_loop cmp xs k) = mset xs"
proof (induction cmp xs k rule: pop_loop.induct)
  case (1 cmp xs k)
  note ok = "1.prems"(1) and dinv = "1.prems"(2)
  let ?L = "2 * k + 1" and ?R = "2 * k + 2"
  show ?case
  proof (cases "length xs > ?L")
    case False
    have "heap_ok cmp xs"
      unfolding heap_ok_iff
    proof (intro allI impI)
      fix i assume a: "0 < i \<and> i < length xs"
      then have "(i - 1) div 2 \<noteq> k" using False child_iff [of i k] by auto
      with a dinv show "cmp (xs ! ((i - 1) div 2)) (xs ! i) \<le> 0"
        unfolding down_inv_def by simp
    qed
    moreover have "pop_loop cmp xs k = xs"
      using False by (subst pop_loop.simps) (simp add: Let_def)
    ultimately show ?thesis by simp
  next
    case True
    define c where "c = (if length xs > ?R \<and> cmp (xs ! ?R) (xs ! ?L) < 0 then ?R else ?L)"
    have unfold: "pop_loop cmp xs k =
        (if cmp (xs ! c) (xs ! k) < 0 then pop_loop cmp (items_swap xs k c) c else xs)"
      using True unfolding c_def by (subst pop_loop.simps) (simp add: Let_def)
    have clen: "c < length xs" and kc: "k < c" and cpar: "(c - 1) div 2 = k" and cpos: "0 < c"
      using True by (auto simp: c_def)
    have cmin: "cmp (xs ! c) (xs ! i) \<le> 0"
      if "0 < i" "i < length xs" "(i - 1) div 2 = k" for i
    proof -
      from that child_iff [of i k] have "i = ?L \<or> i = ?R" by simp
      then show ?thesis
      proof
        assume i: "i = ?L"
        show ?thesis
        proof (cases "length xs > ?R \<and> cmp (xs ! ?R) (xs ! ?L) < 0")
          case True
          then show ?thesis using i by (simp add: c_def)
        next
          case False
          then show ?thesis using i ok_refl [OF ok, of "xs ! ?L"] by (auto simp: c_def)
        qed
      next
        assume i: "i = ?R"
        show ?thesis
        proof (cases "cmp (xs ! ?R) (xs ! ?L) < 0")
          case True
          then show ?thesis using i that ok_refl [OF ok, of "xs ! ?R"] by (auto simp: c_def)
        next
          case False
          from ok_total [OF ok False] show ?thesis using i False by (simp add: c_def)
        qed
      qed
    qed
    show ?thesis
    proof (cases "cmp (xs ! c) (xs ! k) < 0")
      case False
      from ok_total [OF ok False] have kc_le: "cmp (xs ! k) (xs ! c) \<le> 0" .
      have "heap_ok cmp xs"
        unfolding heap_ok_iff
      proof (intro allI impI)
        fix i assume a: "0 < i \<and> i < length xs"
        show "cmp (xs ! ((i - 1) div 2)) (xs ! i) \<le> 0"
        proof (cases "(i - 1) div 2 = k")
          case True
          from ok_trans [OF ok kc_le cmin] a True show ?thesis by simp
        next
          case False
          with a dinv show ?thesis unfolding down_inv_def by simp
        qed
      qed
      moreover have "pop_loop cmp xs k = xs"
        using False unfold by simp
      ultimately show ?thesis by simp
    next
      case swap: True
      let ?ys = "items_swap xs k c"
      have klen: "k < length xs" using kc clen by simp
      have ysk: "?ys ! k = xs ! c" and ysc: "?ys ! c = xs ! k"
        using klen clen kc by (simp_all add: nth_items_swap)
      have ysi: "?ys ! i = xs ! i" if "i < length xs" "i \<noteq> k" "i \<noteq> c" for i
        using that klen clen by (simp add: nth_items_swap)
      have inv: "down_inv cmp ?ys c"
        unfolding down_inv_def
      proof (intro conjI allI impI)
        fix i assume a: "0 < i \<and> i < length ?ys \<and> (i - 1) div 2 \<noteq> c"
        then have ilen: "i < length xs" by simp
        let ?q = "(i - 1) div 2"
        have qlt: "?q < i" using a parent_less [of i] by simp
        show "cmp (?ys ! ?q) (?ys ! i) \<le> 0"
        proof (cases "i = c")
          case True
          then show ?thesis using cpar ysk ysc swap by simp
        next
          case ic: False
          show ?thesis
          proof (cases "i = k")
            case True
            then have kpos: "0 < k" using a by simp
            have "?q \<noteq> k" "?q \<noteq> c" using qlt True kc by simp_all
            then have "?ys ! ?q = xs ! ?q" using ysi qlt ilen by simp
            moreover have "cmp (xs ! ((k - 1) div 2)) (xs ! c) \<le> 0"
              using dinv cpos clen cpar kpos unfolding down_inv_def by blast
            ultimately show ?thesis using True ysk by simp
          next
            case ik: False
            have yi: "?ys ! i = xs ! i" using ysi ilen ik ic by simp
            show ?thesis
            proof (cases "?q = k")
              case True
              from cmin [of i] a ilen True have "cmp (xs ! c) (xs ! i) \<le> 0" by simp
              then show ?thesis using True ysk yi by simp
            next
              case False
              then have "?ys ! ?q = xs ! ?q" using ysi qlt ilen a by simp
              moreover have "cmp (xs ! ?q) (xs ! i) \<le> 0"
                using dinv a ilen False unfolding down_inv_def by simp
              ultimately show ?thesis using yi by simp
            qed
          qed
        qed
      next
        fix i assume a: "0 < i \<and> i < length ?ys \<and> (i - 1) div 2 = c \<and> 0 < c"
        then have ilen: "i < length xs" by simp
        have "c < i" using a parent_less [of i] by simp
        then have "i \<noteq> k" "i \<noteq> c" using kc by simp_all
        then have "?ys ! i = xs ! i" using ysi ilen by simp
        moreover have "cmp (xs ! ((i - 1) div 2)) (xs ! i) \<le> 0"
          using dinv a ilen kc unfolding down_inv_def by auto
        then have "cmp (xs ! c) (xs ! i) \<le> 0" using a by simp
        ultimately show "cmp (?ys ! ((c - 1) div 2)) (?ys ! i) \<le> 0"
          using cpar ysk by simp
      qed
      have "heap_ok cmp (pop_loop cmp ?ys c) \<and> mset (pop_loop cmp ?ys c) = mset ?ys"
        by (rule "1.IH" [OF refl refl True c_def swap ok inv])
      moreover have "mset ?ys = mset xs" using klen clen by (simp add: mset_items_swap)
      moreover have "pop_loop cmp xs k = pop_loop cmp ?ys c"
        using swap unfold by simp
      ultimately show ?thesis by simp
    qed
  qed
qed


lemma heap_root_least:
  assumes ok: "ordered_key cmp" and h: "heap_ok cmp xs"
  shows "i < length xs \<Longrightarrow> cmp (xs ! 0) (xs ! i) \<le> 0"
proof (induction i rule: less_induct)
  case (less i)
  show ?case
  proof (cases "i = 0")
    case True
    then show ?thesis using ok_refl [OF ok, of "xs ! 0"] by simp
  next
    case False
    then have p: "(i - 1) div 2 < i" using parent_less [of i] by simp
    with less.prems have "cmp (xs ! 0) (xs ! ((i - 1) div 2)) \<le> 0"
      by (intro less.IH) simp_all
    moreover have "cmp (xs ! ((i - 1) div 2)) (xs ! i) \<le> 0"
      using h False less.prems unfolding heap_ok_iff by simp
    ultimately show ?thesis by (rule ok_trans [OF ok])
  qed
qed

lemma pop_heap:
  assumes ok: "ordered_key cmp" and h: "heap_ok cmp xs" and ne: "xs \<noteq> []"
  shows "\<exists>ys. pop cmp xs = Some (xs ! 0, ys) \<and> heap_ok cmp ys \<and>
              add_mset (xs ! 0) (mset ys) = mset xs"
proof -
  let ?n = "length xs"
  let ?sw = "items_swap xs (?n - 1) 0"
  let ?zs = "take (?n - 1) ?sw"
  from ne have npos: "0 < ?n" by simp
  have item: "?sw ! (?n - 1) = xs ! 0"
    using npos by (simp add: items_swap_def nth_list_update)
  have zi: "?zs ! i = xs ! i" if "0 < i" "i < ?n - 1" for i
    using that by (simp add: items_swap_def)
  have inv: "down_inv cmp ?zs 0"
    unfolding down_inv_def
  proof (intro conjI allI impI)
    fix i assume a: "0 < i \<and> i < length ?zs \<and> (i - 1) div 2 \<noteq> 0"
    then have i: "i < ?n - 1" by simp
    have q: "(i - 1) div 2 < i" using a parent_less [of i] by simp
    have "i < ?n" using i by simp
    then have "cmp (xs ! ((i - 1) div 2)) (xs ! i) \<le> 0"
      using h a unfolding heap_ok_iff by blast
    then show "cmp (?zs ! ((i - 1) div 2)) (?zs ! i) \<le> 0"
      using zi [of i] zi [of "(i - 1) div 2"] a i q by simp
  qed simp
  from pop_loop_heap [OF ok inv]
  have hz: "heap_ok cmp (pop_loop cmp ?zs 0)" and mz: "mset (pop_loop cmp ?zs 0) = mset ?zs"
    by simp_all
  have "?zs @ [?sw ! (?n - 1)] = ?sw"
    using npos by (simp add: take_Suc_conv_app_nth [symmetric])
  then have "mset ?zs + {#?sw ! (?n - 1)#} = mset ?sw"
    by (metis mset.simps(1) mset.simps(2) mset_append)
  moreover have "mset ?sw = mset xs" using npos by (simp add: mset_items_swap)
  ultimately have "add_mset (xs ! 0) (mset ?zs) = mset xs" using item by simp
  moreover have "pop cmp xs = Some (xs ! 0, pop_loop cmp ?zs 0)"
    using npos item by (simp add: pop_def Let_def)
  ultimately show ?thesis using hz mz by simp
qed

lemma push_all_heap:
  assumes ok: "ordered_key cmp"
  shows "heap_ok cmp xs \<Longrightarrow>
         \<exists>ys. push_all cmp xs new = Some ys \<and> heap_ok cmp ys \<and> mset ys = mset xs + mset new"
proof (induction new arbitrary: xs)
  case Nil
  then show ?case by simp
next
  case (Cons item rest)
  from push_heap [OF ok Cons.prems, of item]
  obtain ys where p: "push cmp xs item = Some ys" and hy: "heap_ok cmp ys"
    and my: "mset ys = add_mset item (mset xs)" by blast
  from Cons.IH [OF hy]
  obtain zs where "push_all cmp ys rest = Some zs" "heap_ok cmp zs" "mset zs = mset ys + mset rest"
    by blast
  with p my show ?case by simp
qed


lemma priorityItems_get_one:
  assumes ok: "ordered_key cmp" and h: "heap_ok cmp xs" and ne: "xs \<noteq> []"
  shows "\<exists>ys. priorityItems_get cmp xs 1 = Some ([xs ! 0], ys) \<and> heap_ok cmp ys \<and>
              add_mset (xs ! 0) (mset ys) = mset xs"
proof -
  from pop_heap [OF ok h ne]
  obtain ys where p: "pop cmp xs = Some (xs ! 0, ys)" and hy: "heap_ok cmp ys"
    and my: "add_mset (xs ! 0) (mset ys) = mset xs" by blast
  have "priorityItems_get_loop cmp 1 1 ys [xs ! 0] = Some ([xs ! 0], ys)"
    by (subst priorityItems_get_loop.simps) simp
  then have "priorityItems_get_loop cmp 0 1 xs [] = Some ([xs ! 0], ys)"
    using p ne by (subst priorityItems_get_loop.simps) simp
  with hy my show ?thesis by (simp add: priorityItems_get_def)
qed

lemma pq_Put_filling:
  assumes ok: "ordered_key cmp" and f: "filling cmp pq"
  shows "\<exists>pq'. pq_Put cmp pq xs = Some (None, pq', []) \<and> filling cmp pq' \<and>
               mset (pq_items pq') = mset (pq_items pq) + mset xs"
proof (cases "xs = []")
  case True
  with f show ?thesis by (simp add: pq_Put_def)
next
  case False
  from f have h: "heap_ok cmp (pq_items pq)" by (simp add: filling_def)
  from push_all_heap [OF ok h, of xs]
  obtain ys where "push_all cmp (pq_items pq) xs = Some ys" "heap_ok cmp ys"
    "mset ys = mset (pq_items pq) + mset xs" by blast
  with f False show ?thesis by (simp add: pq_Put_def filling_def)
qed

lemma put_all_filling:
  assumes ok: "ordered_key cmp"
  shows "filling cmp pq \<Longrightarrow>
         \<exists>pq'. put_all cmp pq xss = Some pq' \<and> filling cmp pq' \<and>
               mset (pq_items pq') = mset (pq_items pq) + mset (concat xss)"
proof (induction xss arbitrary: pq)
  case Nil
  then show ?case by simp
next
  case (Cons xs xss)
  from pq_Put_filling [OF ok Cons.prems, of xs]
  obtain pq1 where p: "pq_Put cmp pq xs = Some (None, pq1, [])" and f1: "filling cmp pq1"
    and m1: "mset (pq_items pq1) = mset (pq_items pq) + mset xs" by blast
  from Cons.IH [OF f1]
  obtain pq2 where "put_all cmp pq1 xss = Some pq2" "filling cmp pq2"
    "mset (pq_items pq2) = mset (pq_items pq1) + mset (concat xss)" by blast
  with p m1 show ?case by simp
qed

lemma drain_filling:
  assumes ok: "ordered_key cmp"
  shows "filling cmp pq \<Longrightarrow> k \<le> length (pq_items pq) \<Longrightarrow>
         \<exists>ys pq'. drain cmp k pq = Some (map (\<lambda>y. Returned [y] None) ys, pq') \<and>
            length ys = k \<and> sorted_wrt (\<lambda>a b. cmp a b \<le> 0) ys \<and>
            mset ys + mset (pq_items pq') = mset (pq_items pq) \<and>
            (\<forall>y\<in>set ys. \<forall>z\<in>set (pq_items pq'). cmp y z \<le> 0)"
proof (induction k arbitrary: pq)
  case 0
  then show ?case by simp
next
  case (Suc k)
  let ?xs = "pq_items pq"
  from Suc.prems have ne: "?xs \<noteq> []" and h: "heap_ok cmp ?xs"
    and live: "\<not> pq_disposed pq" by (auto simp: filling_def)
  from priorityItems_get_one [OF ok h ne]
  obtain rest where g: "priorityItems_get cmp ?xs 1 = Some ([?xs ! 0], rest)"
    and hr: "heap_ok cmp rest" and mr: "add_mset (?xs ! 0) (mset rest) = mset ?xs" by blast
  let ?pq1 = "pq\<lparr>pq_items := rest\<rparr>"
  have get: "pq_Get cmp pq 1 = Some (Returned [?xs ! 0] None, ?pq1)"
    using live ne g by (simp add: pq_Get_def)
  have f1: "filling cmp ?pq1" using Suc.prems(1) hr by (simp add: filling_def)
  have "size (mset ?xs) = Suc (size (mset rest))" using mr by (metis size_add_mset)
  then have k1: "k \<le> length (pq_items ?pq1)" using Suc.prems(2) by simp
  from Suc.IH [OF f1 k1]
  obtain ys pq2 where d: "drain cmp k ?pq1 = Some (map (\<lambda>y. Returned [y] None) ys, pq2)"
    and len: "length ys = k" and srt: "sorted_wrt (\<lambda>a b. cmp a b \<le> 0) ys"
    and ms: "mset ys + mset (pq_items pq2) = mset rest"
    and low: "\<forall>y\<in>set ys. \<forall>z\<in>set (pq_items pq2). cmp y z \<le> 0" by auto
  have least: "cmp (?xs ! 0) z \<le> 0" if "z \<in> set ?xs" for z
  proof -
    from that obtain i where "i < length ?xs" "?xs ! i = z" by (auto simp: in_set_conv_nth)
    with heap_root_least [OF ok h, of i] show ?thesis by simp
  qed
  have sub: "set ys \<union> set (pq_items pq2) \<subseteq> set ?xs"
  proof -
    have "set_mset (mset ys + mset (pq_items pq2)) \<subseteq> set_mset (mset ?xs)"
      using ms mr by (metis set_mset_add_mset_insert subset_insertI)
    then show ?thesis by simp
  qed
  have "drain cmp (Suc k) pq
          = Some (map (\<lambda>y. Returned [y] None) (?xs ! 0 # ys), pq2)"
    using get d by simp
  moreover have "sorted_wrt (\<lambda>a b. cmp a b \<le> 0) (?xs ! 0 # ys)"
    using srt least sub by auto
  moreover have "mset (?xs ! 0 # ys) + mset (pq_items pq2) = mset ?xs"
    using ms mr by simp
  moreover have "\<forall>y\<in>set (?xs ! 0 # ys). \<forall>z\<in>set (pq_items pq2). cmp y z \<le> 0"
    using low least sub by auto
  ultimately show ?case using len
    by (intro exI [of _ "?xs ! 0 # ys"] exI [of _ pq2]) simp
qed

lemma ordered_key_PriorityItem: "ordered_key PriorityItem_Compare"
  by (auto simp: ordered_key_def PriorityItem_Compare_def)

text \<open>
  C9. Let a priority queue made by \<open>NewPriorityQueue\<close> be filled by any sequence of \<open>Put\<close>
  calls, under a comparison that is a total order up to equivalence. Then every \<open>Put\<close>
  returns, and \<open>k\<close> sequential \<open>Get(1)\<close> calls, for any \<open>k\<close> up to the number of items put,
  each return exactly one item without parking; the items come out in non-decreasing
  order, each of them compares at most equal to every item still in the queue, and what
  came out together with what is left is what was put in.
\<close>

theorem Get_in_priority_order:
  assumes "ordered_key cmp" and "NewPriorityQueue hint dup = Some pq0"
    and "k \<le> length (concat xss)"
  shows "\<exists>pq ys pq'. put_all cmp pq0 xss = Some pq \<and>
           drain cmp k pq = Some (map (\<lambda>y. Returned [y] None) ys, pq') \<and>
           length ys = k \<and> sorted_wrt (\<lambda>a b. cmp a b \<le> 0) ys \<and>
           mset ys + mset (pq_items pq') = mset (concat xss) \<and>
           (\<forall>y\<in>set ys. \<forall>z\<in>set (pq_items pq'). cmp y z \<le> 0)"
proof -
  from assms(2) have f0: "filling cmp pq0" and e0: "pq_items pq0 = []"
    by (auto simp: NewPriorityQueue_def filling_def heap_ok_def split: if_splits)
  from put_all_filling [OF assms(1) f0, of xss] e0
  obtain pq where p: "put_all cmp pq0 xss = Some pq" and f: "filling cmp pq"
    and m: "mset (pq_items pq) = mset (concat xss)" by auto
  from m have "length (pq_items pq) = length (concat xss)" by (rule mset_eq_length)
  with assms(3) have "k \<le> length (pq_items pq)" by simp
  from drain_filling [OF assms(1) f this] p m show ?thesis by auto
qed

lemma put_all_example: "put_all PriorityItem_Compare
       \<lparr>pq_waiters = [], pq_items = [], pq_disposed = False, allowDuplicates = True\<rparr>
       [[\<lparr>Value = ''low'', Priority = 10\<rparr>, \<lparr>Value = ''high'', Priority = 1\<rparr>,
         \<lparr>Value = ''medium'', Priority = 5\<rparr>]]
     = Some \<lparr>pq_waiters = [],
             pq_items = [\<lparr>Value = ''high'', Priority = 1\<rparr>, \<lparr>Value = ''low'', Priority = 10\<rparr>,
                         \<lparr>Value = ''medium'', Priority = 5\<rparr>],
             pq_disposed = False, allowDuplicates = True\<rparr>"
  by (simp add: pq_Put_def push_def push_loop.simps items_swap_def PriorityItem_Compare_def)

lemma drain_example: "drain PriorityItem_Compare 3
       \<lparr>pq_waiters = [],
             pq_items = [\<lparr>Value = ''high'', Priority = 1\<rparr>, \<lparr>Value = ''low'', Priority = 10\<rparr>,
                         \<lparr>Value = ''medium'', Priority = 5\<rparr>],
             pq_disposed = False, allowDuplicates = True\<rparr>
     = Some ([Returned [\<lparr>Value = ''high'', Priority = 1\<rparr>] None,
              Returned [\<lparr>Value = ''medium'', Priority = 5\<rparr>] None,
              Returned [\<lparr>Value = ''low'', Priority = 10\<rparr>] None],
             \<lparr>pq_waiters = [], pq_items = [], pq_disposed = False, allowDuplicates = True\<rparr>)"
  by (simp add: numeral_3_eq_3 pq_Get_def priorityItems_get_def priorityItems_get_loop.simps
        pop_def pop_loop.simps items_swap_def PriorityItem_Compare_def Let_def)

theorem Get_in_priority_order_witness:
  "ordered_key (PriorityItem_Compare :: string PriorityItem \<Rightarrow> string PriorityItem \<Rightarrow> int) \<and>
   NewPriorityQueue 10 True
     = Some \<lparr>pq_waiters = [], pq_items = [] :: string PriorityItem list,
             pq_disposed = False, allowDuplicates = True\<rparr> \<and>
   (3::nat) \<le> length (concat [[\<lparr>Value = ''low'', Priority = 10\<rparr>,
        \<lparr>Value = ''high'', Priority = 1\<rparr>, \<lparr>Value = ''medium'', Priority = 5\<rparr>]]) \<and>
   (\<exists>pq ys pq'.
      put_all PriorityItem_Compare
        \<lparr>pq_waiters = [], pq_items = [], pq_disposed = False, allowDuplicates = True\<rparr>
        [[\<lparr>Value = ''low'', Priority = 10\<rparr>, \<lparr>Value = ''high'', Priority = 1\<rparr>,
          \<lparr>Value = ''medium'', Priority = 5\<rparr>]] = Some pq \<and>
      drain PriorityItem_Compare 3 pq = Some (map (\<lambda>y. Returned [y] None) ys, pq') \<and>
      length ys = 3 \<and> sorted_wrt (\<lambda>a b. PriorityItem_Compare a b \<le> 0) ys \<and>
      mset ys + mset (pq_items pq')
        = mset (concat [[\<lparr>Value = ''low'', Priority = 10\<rparr>,
             \<lparr>Value = ''high'', Priority = 1\<rparr>, \<lparr>Value = ''medium'', Priority = 5\<rparr>]]) \<and>
      (\<forall>y\<in>set ys. \<forall>z\<in>set (pq_items pq'). PriorityItem_Compare y z \<le> 0))"
  using Get_in_priority_order
    [OF ordered_key_PriorityItem, of 10 True
       "\<lparr>pq_waiters = [], pq_items = [] :: string PriorityItem list,
          pq_disposed = False, allowDuplicates = True\<rparr>"
       3 "[[\<lparr>Value = ''low'', Priority = 10\<rparr>, \<lparr>Value = ''high'', Priority = 1\<rparr>,
            \<lparr>Value = ''medium'', Priority = 5\<rparr>]]"]
    ordered_key_PriorityItem [where 'a = string]
  by (simp add: NewPriorityQueue_def)

section \<open>Properties of the indexed skip list\<close>

text \<open>
  C4 at the index \<open>2^64 - 1\<close>, on the list of 3, 5 and 7. The claim, like the comment on
  \<open>SplitAt\<close>, has \<open>(l, nil)\<close> returned for every index from \<open>len(l) - 1\<close> on. The code
  increments the index first, in \<open>uint64\<close>, so that this index becomes 0 and passes the
  test against the length: the list is split before its first entry, the receiver is left
  empty and all three entries are in the list returned as the right one.
\<close>

theorem SplitAt_wraps_at_largest_index:
  "(case Insert_skip (\<lambda>g. True) MyInt_Compare [3, 5, 7] (New_skip 0 Uint8 (empty_store 0)) of
      None \<Rightarrow> False
    | Some (s, rs) \<Rightarrow>
        Len (snd s) = 3 \<and> (- 1 :: u64) \<ge> Len (snd s) - 1 \<and>
        (case SplitAt 0 (- 1) s of
           Some (st, left, Some right) \<Rightarrow>
             Len left = 0 \<and> Len right = 3 \<and>
             ByPosition 0 (st, left) = Some None \<and>
             ByPosition 0 (st, right) = Some (Some 3) \<and>
             ByPosition 1 (st, right) = Some (Some 5) \<and>
             ByPosition 2 (st, right) = Some (Some 7)
         | _ \<Rightarrow> False))"
  by code_simp

end
